theory Spec2Isabelle
  imports Main "HOL-Library.AList" "HOL-Library.Word"
begin

section \<open>The asset graph: data model\<close>

text \<open>
  A shallow embedding of \<^verbatim>\<open>graph.go\<close> (package \<^verbatim>\<open>assets\<close>). Go strings are
  \<open>string\<close>, a byte slice is a list of 8-bit words (the sharing of a slice's backing
  array between caller and store is not modelled: a body is a value).

  The type declarations of \<^verbatim>\<open>Node\<close> and \<^verbatim>\<open>Relationship\<close> live in another file of
  the package, which is not among the sources. \<^verbatim>\<open>graph.go\<close> reads the fields
  \<^verbatim>\<open>id\<close>, \<^verbatim>\<open>Body\<close> and the accessors \<^verbatim>\<open>GetID()\<close>, \<^verbatim>\<open>GetName()\<close>, \<^verbatim>\<open>GetLabel()\<close> of a node
  and the fields \<^verbatim>\<open>ID\<close>, \<^verbatim>\<open>From\<close>, \<^verbatim>\<open>To\<close>, \<^verbatim>\<open>Label\<close> of a relationship.
\<close>

type_synonym bytes = "8 word list"

text \<open>
  Modelled from the spec: the struct \<^verbatim>\<open>Node\<close> (identity, name, label, opaque body). The
  unexported fields \<^verbatim>\<open>id\<close>, \<^verbatim>\<open>name\<close>, \<^verbatim>\<open>label\<close> carry the names of their accessors
  here (\<open>id\<close> is a constant of HOL); \<^verbatim>\<open>from.id\<close> and \<^verbatim>\<open>from.GetID()\<close> are both \<open>GetID from\<close>.
\<close>

record Node =
  GetID :: string
  GetName :: string
  GetLabel :: string
  Body :: bytes

text \<open>
  Modelled from the spec: the struct \<^verbatim>\<open>Relationship\<close> (identity, the identities of its
  two endpoints, a label, and the snapshot of the endpoints' names and labels taken at
  creation for display).
\<close>

record Relationship =
  ID :: string
  From :: string
  To :: string
  Label :: string
  FromName :: string
  FromLabel :: string
  ToName :: string
  ToLabel :: string

text \<open>
  The zero value \<^verbatim>\<open>Relationship{}\<close>, which the last link of a chain holds. (The zero
  values that the operations return beside an error are not modelled: a failing
  operation returns its error alone.)
\<close>

definition zeroRelationship :: Relationship where
  "zeroRelationship =
     \<lparr>ID = [], From = [], To = [], Label = [],
      FromName = [], FromLabel = [], ToName = [], ToLabel = []\<rparr>"

text \<open>
  Modelled from the spec: \<^verbatim>\<open>newNode\<close> and \<^verbatim>\<open>newRelationship\<close>, which are not among
  the sources. Each draws an identity from the identity generator and fills in the
  fields from its arguments. The generator is a random source outside the graph, so the
  identity it hands out is a parameter of the model (\<open>newid\<close>).
\<close>

definition newNode :: "string \<Rightarrow> string \<Rightarrow> string \<Rightarrow> bytes \<Rightarrow> Node" where
  "newNode newid name label body =
     \<lparr>GetID = newid, GetName = name, GetLabel = label, Body = body\<rparr>"

definition newRelationship :: "string \<Rightarrow> Node \<Rightarrow> Node \<Rightarrow> string \<Rightarrow> Relationship" where
  "newRelationship newid fromNode toNode label =
     \<lparr>ID = newid, From = GetID fromNode, To = GetID toNode, Label = label,
      FromName = GetName fromNode, FromLabel = GetLabel fromNode,
      ToName = GetName toNode, ToLabel = GetLabel toNode\<rparr>"

subsection \<open>Errors\<close>

text \<open>
  \<^verbatim>\<open>ErrNotFound\<close> is the package's only sentinel. \<^verbatim>\<open>fmt.Errorf\<close> with a \<^verbatim>\<open>%w\<close> verb builds
  an error that carries its formatted message and the error it wraps; \<^verbatim>\<open>errors.Is\<close>
  follows the chain of wrapped errors. (Go compares two wrapping errors by address,
  the model by content; the properties below only ever ask for \<^verbatim>\<open>ErrNotFound\<close>.)
\<close>

datatype error = ErrNotFound | Errorf string error

fun Error :: "error \<Rightarrow> string" where
  "Error ErrNotFound = ''could not find an element matching the request''"
| "Error (Errorf msg wrapped) = msg"

fun errors_Is :: "error \<Rightarrow> error \<Rightarrow> bool" where
  "errors_Is ErrNotFound target = (ErrNotFound = target)"
| "errors_Is (Errorf msg wrapped) target =
     (Errorf msg wrapped = target \<or> errors_Is wrapped target)"

definition quoted :: "string \<Rightarrow> string" where
  "quoted s = [CHR 0x27] @ s @ [CHR 0x27]"

subsection \<open>Filters\<close>

type_synonym FilterNodes = "Node \<Rightarrow> bool"
type_synonym FilterRelationship = "Relationship \<Rightarrow> bool"

fun FilterNodesByLabel :: "string list \<Rightarrow> FilterNodes" where
  "FilterNodesByLabel [] node = False"
| "FilterNodesByLabel (label # labels) node =
     (if GetLabel node = label then True else FilterNodesByLabel labels node)"

fun FilterNodesByName :: "string list \<Rightarrow> FilterNodes" where
  "FilterNodesByName [] node = False"
| "FilterNodesByName (name # names) node =
     (if GetName node = name then True else FilterNodesByName names node)"

definition FilterRelByLabel :: "string \<Rightarrow> FilterRelationship" where
  "FilterRelByLabel label rel = (Label rel = label)"

definition FilterRelByTo :: "string \<Rightarrow> FilterRelationship" where
  "FilterRelByTo toID rel = (To rel = toID)"

definition FilterRelByFrom :: "string \<Rightarrow> FilterRelationship" where
  "FilterRelByFrom fromID rel = (From rel = fromID)"

section \<open>The graph store\<close>

text \<open>
  The two Go maps are association lists. Lookup is \<open>map_of\<close>, \<^verbatim>\<open>m[k] = v\<close> is
  \<open>AList.update\<close> (it replaces the entry of a key that is present and adds one
  otherwise), \<^verbatim>\<open>delete(m, k)\<close> is \<open>AList.delete\<close>. A \<^verbatim>\<open>range\<close> over a Go map visits
  every entry once in an order the language leaves open; the model visits them in the
  order of the list, and the properties below speak of the entries returned, not of
  their order. The lock of the store is not modelled: every operation is one
  transition of the state.
\<close>

record Graph =
  nodes :: "(string \<times> Node) list"
  relationships :: "(string \<times> Relationship) list"

definition NewGraph :: Graph where
  "NewGraph = \<lparr>nodes = [], relationships = []\<rparr>"

definition InsertNode :: "Graph \<Rightarrow> string \<Rightarrow> string \<Rightarrow> string \<Rightarrow> bytes \<Rightarrow> Node \<times> Graph" where
  "InsertNode g newid name label body =
     (let node = newNode newid name label body
      in (node, g\<lparr>nodes := AList.update (GetID node) node (nodes g)\<rparr>))"

definition GetNodeByID :: "Graph \<Rightarrow> string \<Rightarrow> error + Node" where
  "GetNodeByID g ident =
     (case map_of (nodes g) ident of
        None \<Rightarrow> Inl (Errorf (Error ErrNotFound @ ''; node with id '' @ quoted ident) ErrNotFound)
      | Some item \<Rightarrow> Inr item)"

text \<open>
  The inner loop of the two listings: it leaves at the first clause that rejects the
  item.
\<close>

fun matches :: "('a \<Rightarrow> bool) list \<Rightarrow> 'a \<Rightarrow> bool" where
  "matches [] item = True"
| "matches (clause # clauses) item = (if clause item then matches clauses item else False)"

definition ListNodes :: "Graph \<Rightarrow> FilterNodes list \<Rightarrow> Node list" where
  "ListNodes g where = filter (matches where) (map snd (nodes g))"

definition UpdateNode :: "Graph \<Rightarrow> string \<Rightarrow> bytes \<Rightarrow> (error + Node) \<times> Graph" where
  "UpdateNode g nodeID body =
     (case map_of (nodes g) nodeID of
        None \<Rightarrow> (Inl (Errorf (Error ErrNotFound @ ''; node with id '' @ quoted nodeID) ErrNotFound), g)
      | Some node0 \<Rightarrow>
          (let node = node0\<lparr>Body := body\<rparr>
           in (Inr node, g\<lparr>nodes := AList.update (GetID node) node (nodes g)\<rparr>)))"

definition DeleteNode :: "Graph \<Rightarrow> string \<Rightarrow> error option \<times> Graph" where
  "DeleteNode g nodeID =
     (case map_of (nodes g) nodeID of
        None \<Rightarrow> (Some (Errorf (Error ErrNotFound @ ''; node with id '' @ quoted nodeID) ErrNotFound), g)
      | Some node \<Rightarrow> (None, g\<lparr>nodes := AList.delete (GetID node) (nodes g)\<rparr>))"

definition AddRelationship ::
  "Graph \<Rightarrow> string \<Rightarrow> Node \<Rightarrow> Node \<Rightarrow> string \<Rightarrow> (error + Relationship) \<times> Graph" where
  "AddRelationship g newid from to label =
     (case GetNodeByID g (GetID from) of
        Inl err \<Rightarrow> (Inl (Errorf (''getNodeByID '' @ GetID from @ ''; '' @ Error err) err), g)
      | Inr fromNode \<Rightarrow>
          (case GetNodeByID g (GetID to) of
             Inl err \<Rightarrow> (Inl (Errorf (''getNodeByID '' @ GetID to @ ''; '' @ Error err) err), g)
           | Inr toNode \<Rightarrow>
               (let rel = newRelationship newid fromNode toNode label
                in (Inr rel, g\<lparr>relationships := AList.update (ID rel) rel (relationships g)\<rparr>))))"

definition GetRelationshipByID :: "Graph \<Rightarrow> string \<Rightarrow> error + Relationship" where
  "GetRelationshipByID g ident =
     (case map_of (relationships g) ident of
        None \<Rightarrow> Inl (Errorf (Error ErrNotFound @ ''; relationship with id '' @ quoted ident) ErrNotFound)
      | Some item \<Rightarrow> Inr item)"

definition ListRelationships :: "Graph \<Rightarrow> FilterRelationship list \<Rightarrow> Relationship list" where
  "ListRelationships g filters = filter (matches filters) (map snd (relationships g))"

section \<open>The connection finder\<close>

text \<open>
  A chain is a singly linked list of links; the last link holds a node, the zero
  relationship and no successor.
\<close>

datatype ChainLink =
  ChainLink (cl_node: Node) (cl_rel: Relationship) (cl_next: "ChainLink option")

text \<open>
  \<^verbatim>\<open>listConnections\<close> marks \<^verbatim>\<open>from.id\<close> as visited, then walks the relationships that
  leave \<^verbatim>\<open>from\<close>. The loop appends to \<^verbatim>\<open>chains\<close> what each relationship contributes, which
  is the concatenation of the contributions: none when the destination is visited (the
  first \<^verbatim>\<open>continue\<close>), one two-link chain when the destination is \<^verbatim>\<open>to.id\<close>, none when
  the destination is not stored, and otherwise the chains of the recursive call, each
  behind a new first link. \<^verbatim>\<open>toCheck\<close> is a copy of \<^verbatim>\<open>visited\<close> with the destination
  added, so the loop's own \<^verbatim>\<open>visited\<close> is the same set for every relationship. In the
  model \<open>visited0\<close> is the map as it is passed in and \<open>visited\<close> the map after the mark.
  The recursion ends because every call it makes has fewer stored identities left
  unvisited.
\<close>

function listConnections :: "Graph \<Rightarrow> Node \<Rightarrow> Node \<Rightarrow> string set \<Rightarrow> ChainLink list" where
  "listConnections g from to visited0 =
     (let visited = insert (GetID from) visited0
      in concat (map (\<lambda>rel.
           if To rel \<in> visited then []
           else if To rel = GetID to
             then [ChainLink from rel (Some (ChainLink to zeroRelationship None))]
           else (case map_of (nodes g) (To rel) of
                   None \<Rightarrow> []
                 | Some next \<Rightarrow>
                     map (\<lambda>cons. ChainLink from rel (Some cons))
                       (listConnections g next to (insert (To rel) visited))))
         (ListRelationships g [FilterRelByFrom (GetID from)])))"
  by pat_completeness auto

termination
proof (relation "measure (\<lambda>(g, from, to, visited0). card (fst ` set (nodes g) - visited0))")
  show "wf (measure (\<lambda>(g, from, to, visited0). card (fst ` set (nodes g) - visited0)))"
    by simp
next
  fix g :: Graph and "from" to :: Node and visited0 visited :: "string set"
    and rel :: Relationship and "next" :: Node
  assume visited: "visited = insert (GetID from) visited0"
    and fresh: "To rel \<notin> visited"
    and stored: "map_of (nodes g) (To rel) = Some next"
  have "To rel \<in> fst ` set (nodes g)"
    using stored by (metis map_of_SomeD fst_conv image_eqI)
  with visited fresh
  have "fst ` set (nodes g) - insert (To rel) visited \<subset> fst ` set (nodes g) - visited0"
    by auto
  then have "card (fst ` set (nodes g) - insert (To rel) visited)
      < card (fst ` set (nodes g) - visited0)"
    by (intro psubset_card_mono) simp_all
  then show "((g, next, to, insert (To rel) visited), (g, from, to, visited0))
      \<in> measure (\<lambda>(g, from, to, visited0). card (fst ` set (nodes g) - visited0))"
    by simp
qed

definition ListConnections :: "Graph \<Rightarrow> Node \<Rightarrow> Node \<Rightarrow> ChainLink list" where
  "ListConnections g from to = listConnections g from to {}"

text \<open>The equation of \<^verbatim>\<open>listConnections\<close> is unfolded on demand only.\<close>

declare listConnections.simps [simp del]

section \<open>What the properties speak of\<close>

subsection \<open>The state of a store\<close>

text \<open>
  A Go map holds one entry for a key, and the store files every node under its own
  identity (\<^verbatim>\<open>g.nodes[node.id] = node\<close>) and every relationship under its own
  (\<^verbatim>\<open>g.relationships[rel.ID] = rel\<close>). \<open>store_inv\<close> says so of the two association
  lists. The fields of \<^verbatim>\<open>Graph\<close> are unexported, so a store is only ever built by
  \<^verbatim>\<open>NewGraph\<close> and the operations: \<open>reachable\<close>.
\<close>

definition store_inv :: "Graph \<Rightarrow> bool" where
  "store_inv g \<longleftrightarrow>
     distinct (map fst (nodes g)) \<and> list_all (\<lambda>(k, n). GetID n = k) (nodes g) \<and>
     distinct (map fst (relationships g)) \<and> list_all (\<lambda>(k, r). ID r = k) (relationships g)"

inductive reachable :: "Graph \<Rightarrow> bool" where
  reach_new: "reachable NewGraph"
| reach_insert: "reachable g \<Longrightarrow> reachable (snd (InsertNode g newid name label body))"
| reach_update: "reachable g \<Longrightarrow> reachable (snd (UpdateNode g nodeID body))"
| reach_delete: "reachable g \<Longrightarrow> reachable (snd (DeleteNode g nodeID))"
| reach_relate: "reachable g \<Longrightarrow> reachable (snd (AddRelationship g newid from to label))"

subsection \<open>Reading a chain\<close>

text \<open>
  The nodes of a chain in the order of its links, the relationships of its links up to
  the last link (which leads nowhere), and the last link.
\<close>

fun chain_nodes :: "ChainLink \<Rightarrow> Node list" where
  "chain_nodes (ChainLink n r None) = [n]"
| "chain_nodes (ChainLink n r (Some c)) = n # chain_nodes c"

fun chain_rels :: "ChainLink \<Rightarrow> Relationship list" where
  "chain_rels (ChainLink n r None) = []"
| "chain_rels (ChainLink n r (Some c)) = r # chain_rels c"

fun chain_end :: "ChainLink \<Rightarrow> ChainLink" where
  "chain_end (ChainLink n r None) = ChainLink n r None"
| "chain_end (ChainLink n r (Some c)) = chain_end c"

subsection \<open>Paths\<close>

text \<open>
  A directed path from identity \<open>a\<close> to identity \<open>b\<close> is a non-empty sequence of stored
  relationships, the first leaving \<open>a\<close>, each leaving the destination of the one before,
  the last arriving at \<open>b\<close>. It is simple when no identity on it occurs twice. The
  intermediate identities of a path are the destinations of all its relationships but
  the last.
\<close>

fun directed_path :: "Graph \<Rightarrow> string \<Rightarrow> string \<Rightarrow> Relationship list \<Rightarrow> bool" where
  "directed_path g a b [] = False"
| "directed_path g a b (r # rs) =
     (r \<in> snd ` set (relationships g) \<and> From r = a \<and>
      (if rs = [] then To r = b else directed_path g (To r) b rs))"

definition intermediates_stored :: "Graph \<Rightarrow> Relationship list \<Rightarrow> bool" where
  "intermediates_stored g p = list_all (\<lambda>i. map_of (nodes g) i \<noteq> None) (butlast (map To p))"

definition simple_path :: "Graph \<Rightarrow> string \<Rightarrow> string \<Rightarrow> Relationship list \<Rightarrow> bool" where
  "simple_path g a b p \<longleftrightarrow>
     directed_path g a b p \<and> distinct (a # map To p) \<and> intermediates_stored g p"

subsection \<open>Example stores\<close>

text \<open>
  The store of \<^verbatim>\<open>Test_Graph_ListConnections\<close>: three nodes and five relationships, two
  of them parallel, with a cycle between Bobita and Azor. The identities are the ones
  the generator is taken to hand out.
\<close>

definition bobita :: Node where
  "bobita = \<lparr>GetID = ''n1'', GetName = ''Bobita'', GetLabel = ''puppy'', Body = [1, 2]\<rparr>"

definition azor :: Node where
  "azor = \<lparr>GetID = ''n2'', GetName = ''Azor'', GetLabel = ''puppy'', Body = [3]\<rparr>"

definition smaug :: Node where
  "smaug = \<lparr>GetID = ''n3'', GetName = ''Smaug'', GetLabel = ''dragon'', Body = [4, 5]\<rparr>"

definition test_graph :: Graph where
  "test_graph =
     (let g = snd (InsertNode NewGraph ''n1'' ''Bobita'' ''puppy'' [1, 2]);
          g = snd (InsertNode g ''n2'' ''Azor'' ''puppy'' [3]);
          g = snd (InsertNode g ''n3'' ''Smaug'' ''dragon'' [4, 5]);
          g = snd (AddRelationship g ''r1'' bobita azor ''friends'');
          g = snd (AddRelationship g ''r2'' bobita smaug ''enemies'');
          g = snd (AddRelationship g ''r3'' azor smaug ''enemies'');
          g = snd (AddRelationship g ''r4'' azor bobita ''friends'');
          g = snd (AddRelationship g ''r5'' azor bobita ''friends'')
      in g)"

definition rel_of :: "string \<Rightarrow> Node \<Rightarrow> string \<Rightarrow> Node \<Rightarrow> Relationship" where
  "rel_of ident a label b = newRelationship ident a b label"

text \<open>The same store after Smaug has been deleted: two relationships dangle.\<close>

definition dangling_graph :: Graph where
  "dangling_graph = snd (DeleteNode test_graph ''n3'')"

text \<open>A copy of Smaug as a caller may still hold it, with a body of its own.\<close>

definition stale_smaug :: Node where
  "stale_smaug = \<lparr>GetID = ''n3'', GetName = ''Smaug'', GetLabel = ''dragon'', Body = [9]\<rparr>"

section \<open>Association lists and the invariant of the store\<close>

lemma list_all_update:
  "P (k, v) \<Longrightarrow> list_all P al \<Longrightarrow> list_all P (AList.update k v al)"
  by (induction al) auto

lemma list_all_delete: "list_all P al \<Longrightarrow> list_all P (AList.delete k al)"
  by (induction al) auto

lemma keyed_lookup:
  "list_all (\<lambda>(k, v). f v = k) al \<Longrightarrow> map_of al k = Some v \<Longrightarrow> f v = k"
  by (induction al) (auto split: if_splits)

lemma keyed_values_distinct:
  assumes "distinct (map fst al)" and "list_all (\<lambda>(k, v). f v = k) al"
  shows "distinct (map snd al)"
proof -
  have "map fst al = map f (map snd al)"
    using assms(2) by (induction al) auto
  with assms(1) show ?thesis
    by (simp add: distinct_map del: map_map)
qed

lemma map_absent_key:
  "k \<notin> fst ` set al \<Longrightarrow> map (\<lambda>(k', v'). (k', if k' = k then v else v')) al = al"
  by (induction al) auto

lemma update_present:
  "distinct (map fst al) \<Longrightarrow> map_of al k = Some v0 \<Longrightarrow>
   AList.update k v al = map (\<lambda>(k', v'). (k', if k' = k then v else v')) al"
  by (induction al) (auto split: if_splits simp: map_absent_key)

lemma update_absent: "k \<notin> fst ` set al \<Longrightarrow> AList.update k v al = al @ [(k, v)]"
  by (induction al) auto

lemma delete_as_filter: "AList.delete k al = filter (\<lambda>(k', v'). k' \<noteq> k) al"
  by (induction al) auto

lemma lookup_None_iff: "map_of al k = None \<longleftrightarrow> k \<notin> fst ` set al"
  by (simp add: map_of_eq_None_iff)

lemma matches_iff: "matches clauses item \<longleftrightarrow> (\<forall>clause \<in> set clauses. clause item)"
  by (induction clauses) auto

lemma FilterNodesByLabel_iff: "FilterNodesByLabel labels node \<longleftrightarrow> GetLabel node \<in> set labels"
  by (induction labels) auto

lemma FilterNodesByName_iff: "FilterNodesByName names node \<longleftrightarrow> GetName node \<in> set names"
  by (induction names) auto

lemma store_inv_NewGraph: "store_inv NewGraph"
  by (simp add: store_inv_def NewGraph_def)

lemma store_inv_InsertNode: "store_inv g \<Longrightarrow> store_inv (snd (InsertNode g newid name label body))"
  by (simp add: store_inv_def InsertNode_def Let_def distinct_update list_all_update)

lemma store_inv_UpdateNode: "store_inv g \<Longrightarrow> store_inv (snd (UpdateNode g nodeID body))"
  by (auto simp: store_inv_def UpdateNode_def Let_def distinct_update list_all_update
      split: option.splits)

lemma store_inv_DeleteNode: "store_inv g \<Longrightarrow> store_inv (snd (DeleteNode g nodeID))"
  by (auto simp: store_inv_def DeleteNode_def distinct_delete list_all_delete
      split: option.splits)

lemma store_inv_AddRelationship:
  "store_inv g \<Longrightarrow> store_inv (snd (AddRelationship g newid from to label))"
  by (auto simp: store_inv_def AddRelationship_def Let_def distinct_update list_all_update
      newRelationship_def split: sum.splits)

lemma reachable_store_inv: "reachable g \<Longrightarrow> store_inv g"
  by (induction rule: reachable.induct)
     (simp_all add: store_inv_NewGraph store_inv_InsertNode store_inv_UpdateNode
        store_inv_DeleteNode store_inv_AddRelationship)

lemma stored_node_id: "store_inv g \<Longrightarrow> map_of (nodes g) k = Some n \<Longrightarrow> GetID n = k"
  unfolding store_inv_def by (blast intro: keyed_lookup)

lemma stored_rels_distinct: "store_inv g \<Longrightarrow> distinct (map snd (relationships g))"
  unfolding store_inv_def by (blast intro: keyed_values_distinct)

lemma stored_nodes_distinct: "store_inv g \<Longrightarrow> distinct (map snd (nodes g))"
  unfolding store_inv_def by (blast intro: keyed_values_distinct)

section \<open>The example stores, evaluated\<close>

lemma AddRelationship_stored:
  "map_of (nodes g) (GetID from) = Some fromNode \<Longrightarrow> map_of (nodes g) (GetID to) = Some toNode \<Longrightarrow>
   snd (AddRelationship g newid from to label) =
     g\<lparr>relationships := AList.update newid (newRelationship newid fromNode toNode label) (relationships g)\<rparr>"
  by (simp add: AddRelationship_def GetNodeByID_def Let_def newRelationship_def)

lemma test_graph_eq:
  "test_graph =
     \<lparr>nodes = [(''n1'', bobita), (''n2'', azor), (''n3'', smaug)],
      relationships =
        [(''r1'', rel_of ''r1'' bobita ''friends'' azor),
         (''r2'', rel_of ''r2'' bobita ''enemies'' smaug),
         (''r3'', rel_of ''r3'' azor ''enemies'' smaug),
         (''r4'', rel_of ''r4'' azor ''friends'' bobita),
         (''r5'', rel_of ''r5'' azor ''friends'' bobita)]\<rparr>"
proof -
  have n: "snd (InsertNode (snd (InsertNode (snd (InsertNode NewGraph ''n1'' ''Bobita'' ''puppy'' [1, 2]))
      ''n2'' ''Azor'' ''puppy'' [3])) ''n3'' ''Smaug'' ''dragon'' [4, 5])
    = \<lparr>nodes = [(''n1'', bobita), (''n2'', azor), (''n3'', smaug)], relationships = []\<rparr>"
    by (simp add: InsertNode_def NewGraph_def newNode_def bobita_def azor_def smaug_def Let_def)
  have ids: "GetID bobita = ''n1''" "GetID azor = ''n2''" "GetID smaug = ''n3''"
    by (simp_all add: bobita_def azor_def smaug_def)
  show ?thesis
    unfolding test_graph_def Let_def n
    by (simp add: AddRelationship_stored ids rel_of_def)
qed

lemma dangling_graph_eq:
  "dangling_graph =
     \<lparr>nodes = [(''n1'', bobita), (''n2'', azor)],
      relationships = relationships test_graph\<rparr>"
  by (simp add: dangling_graph_def test_graph_eq DeleteNode_def smaug_def)

lemma test_graph_reachable: "reachable test_graph"
  unfolding test_graph_def Let_def by (intro reachable.intros)

lemma dangling_graph_reachable: "reachable dangling_graph"
  unfolding dangling_graph_def by (intro reachable.intros test_graph_reachable)

section \<open>The store operations\<close>

text \<open>
  Claim C4. For all name, label and body, and in every store, \<^verbatim>\<open>InsertNode\<close> followed
  by \<^verbatim>\<open>GetNodeByID\<close> on the identity of the returned node succeeds and returns that
  node, whose label and body are the ones inserted. This holds for whatever identity
  the generator hands out, also one that is already in use (the entry is overwritten).
\<close>

theorem InsertNode_then_GetNodeByID:
  "GetNodeByID (snd (InsertNode g newid name label body))
       (GetID (fst (InsertNode g newid name label body)))
     = Inr (fst (InsertNode g newid name label body))
   \<and> GetLabel (fst (InsertNode g newid name label body)) = label
   \<and> Body (fst (InsertNode g newid name label body)) = body"
  by (simp add: InsertNode_def GetNodeByID_def Let_def update_conv' newNode_def)

text \<open>
  Claim C5. For a stored node and any new body, \<^verbatim>\<open>UpdateNode\<close> returns the node with
  the new body and the old identity, name and label; in the store, the entry of that
  identity has its body replaced and every other entry is as it was (the list of entries
  is the old one with that one body changed); the relationships are untouched; and
  \<^verbatim>\<open>GetNodeByID\<close> afterwards returns the node with the new body, and for any other
  identity what it returned before.
\<close>

theorem UpdateNode_replaces_body_only:
  assumes "store_inv g" and "GetNodeByID g nodeID = Inr old"
  shows "fst (UpdateNode g nodeID body) = Inr (old\<lparr>Body := body\<rparr>)
    \<and> nodes (snd (UpdateNode g nodeID body))
        = map (\<lambda>(k, n). (k, if k = nodeID then n\<lparr>Body := body\<rparr> else n)) (nodes g)
    \<and> relationships (snd (UpdateNode g nodeID body)) = relationships g
    \<and> GetNodeByID (snd (UpdateNode g nodeID body)) nodeID = Inr (old\<lparr>Body := body\<rparr>)
    \<and> GetID (old\<lparr>Body := body\<rparr>) = GetID old
    \<and> GetName (old\<lparr>Body := body\<rparr>) = GetName old
    \<and> GetLabel (old\<lparr>Body := body\<rparr>) = GetLabel old
    \<and> Body (old\<lparr>Body := body\<rparr>) = body
    \<and> (\<forall>k. k \<noteq> nodeID \<longrightarrow>
          GetNodeByID (snd (UpdateNode g nodeID body)) k = GetNodeByID g k)"
proof -
  from assms(2) have look: "map_of (nodes g) nodeID = Some old"
    by (simp add: GetNodeByID_def split: option.splits)
  with assms(1) have ident: "GetID old = nodeID"
    by (rule stored_node_id)
  from assms(1) have dist: "distinct (map fst (nodes g))"
    by (simp add: store_inv_def)
  have upd: "UpdateNode g nodeID body
      = (Inr (old\<lparr>Body := body\<rparr>),
         g\<lparr>nodes := AList.update nodeID (old\<lparr>Body := body\<rparr>) (nodes g)\<rparr>)"
    by (simp add: UpdateNode_def look ident Let_def)
  have "AList.update nodeID (old\<lparr>Body := body\<rparr>) (nodes g)
      = map (\<lambda>(k, n). (k, if k = nodeID then old\<lparr>Body := body\<rparr> else n)) (nodes g)"
    using dist look by (rule update_present)
  also have "\<dots> = map (\<lambda>(k, n). (k, if k = nodeID then n\<lparr>Body := body\<rparr> else n)) (nodes g)"
  proof (rule map_cong [OF refl])
    fix e assume e: "e \<in> set (nodes g)"
    have "snd e = old" if "fst e = nodeID"
    proof -
      from e that have "(nodeID, snd e) \<in> set (nodes g)"
        by (metis prod.collapse)
      with dist look show ?thesis by simp
    qed
    then show "(case e of (k, n) \<Rightarrow> (k, if k = nodeID then old\<lparr>Body := body\<rparr> else n))
        = (case e of (k, n) \<Rightarrow> (k, if k = nodeID then n\<lparr>Body := body\<rparr> else n))"
      by (cases e) auto
  qed
  finally have list: "nodes (snd (UpdateNode g nodeID body))
      = map (\<lambda>(k, n). (k, if k = nodeID then n\<lparr>Body := body\<rparr> else n)) (nodes g)"
    by (simp add: upd)
  have res: "fst (UpdateNode g nodeID body) = Inr (old\<lparr>Body := body\<rparr>)"
    and rels: "relationships (snd (UpdateNode g nodeID body)) = relationships g"
    by (simp_all add: upd)
  have get: "GetNodeByID (snd (UpdateNode g nodeID body)) k
      = (if k = nodeID then Inr (old\<lparr>Body := body\<rparr>) else GetNodeByID g k)" for k
    by (simp add: upd GetNodeByID_def update_conv')
  show ?thesis
    by (simp add: list res rels get)
qed

theorem UpdateNode_replaces_body_only_witness:
  "store_inv test_graph \<and> GetNodeByID test_graph ''n2'' = Inr azor
   \<and> fst (UpdateNode test_graph ''n2'' [7, 7]) = Inr (azor\<lparr>Body := [7, 7]\<rparr>)
   \<and> nodes (snd (UpdateNode test_graph ''n2'' [7, 7]))
       = [(''n1'', bobita), (''n2'', azor\<lparr>Body := [7, 7]\<rparr>), (''n3'', smaug)]
   \<and> relationships (snd (UpdateNode test_graph ''n2'' [7, 7])) = relationships test_graph
   \<and> GetNodeByID (snd (UpdateNode test_graph ''n2'' [7, 7])) ''n1'' = Inr bobita"
proof -
  have inv: "store_inv test_graph"
    by (rule reachable_store_inv [OF test_graph_reachable])
  have got: "GetNodeByID test_graph ''n2'' = Inr azor"
    by (simp add: test_graph_eq GetNodeByID_def)
  have nodes: "nodes test_graph = [(''n1'', bobita), (''n2'', azor), (''n3'', smaug)]"
    by (simp add: test_graph_eq)
  have other: "GetNodeByID test_graph ''n1'' = Inr bobita"
    by (simp add: test_graph_eq GetNodeByID_def)
  show ?thesis
    using UpdateNode_replaces_body_only [OF inv got, of "[7, 7]"] inv got
    by (simp add: nodes other)
qed

text \<open>
  Claim C6. For an identity that is not in the node collection, \<^verbatim>\<open>GetNodeByID\<close>,
  \<^verbatim>\<open>UpdateNode\<close> and \<^verbatim>\<open>DeleteNode\<close> each fail with an error that wraps
  \<^verbatim>\<open>ErrNotFound\<close>, and the two that could write leave the store exactly as it was.
  (\<^verbatim>\<open>GetNodeByID\<close> only reads.)
\<close>

theorem absent_identity_NotFound:
  assumes "map_of (nodes g) ident = None"
  shows "(\<exists>e. GetNodeByID g ident = Inl e \<and> errors_Is e ErrNotFound)
    \<and> (\<exists>e. UpdateNode g ident body = (Inl e, g) \<and> errors_Is e ErrNotFound)
    \<and> (\<exists>e. DeleteNode g ident = (Some e, g) \<and> errors_Is e ErrNotFound)"
  using assms by (simp add: GetNodeByID_def UpdateNode_def DeleteNode_def)

theorem absent_identity_NotFound_witness:
  "map_of (nodes test_graph) ''n9'' = None
   \<and> (\<exists>e. GetNodeByID test_graph ''n9'' = Inl e \<and> errors_Is e ErrNotFound)
   \<and> (\<exists>e. UpdateNode test_graph ''n9'' [1] = (Inl e, test_graph) \<and> errors_Is e ErrNotFound)
   \<and> (\<exists>e. DeleteNode test_graph ''n9'' = (Some e, test_graph) \<and> errors_Is e ErrNotFound)"
proof -
  have absent: "map_of (nodes test_graph) ''n9'' = None"
    by (simp add: test_graph_eq)
  show ?thesis
    using absent_identity_NotFound [OF absent, of "[1]"] absent by blast
qed

text \<open>
  Claim C7. \<^verbatim>\<open>ListNodes\<close> returns a node if and only if it is stored and every clause
  holds of it, and returns it once; with no clause it returns every stored node; and
  listing by label and by name together returns, as a set, the intersection of listing
  by label alone and listing by name alone.
\<close>

theorem ListNodes_all_predicates:
  assumes "store_inv g"
  shows "(\<forall>n. n \<in> set (ListNodes g where) \<longleftrightarrow>
            GetNodeByID g (GetID n) = Inr n \<and> (\<forall>clause \<in> set where. clause n))
    \<and> distinct (ListNodes g where)
    \<and> (\<forall>n. n \<in> set (ListNodes g []) \<longleftrightarrow> GetNodeByID g (GetID n) = Inr n)
    \<and> set (ListNodes g [FilterNodesByLabel labels, FilterNodesByName names])
        = set (ListNodes g [FilterNodesByLabel labels]) \<inter> set (ListNodes g [FilterNodesByName names])"
proof -
  from assms have dist: "distinct (map fst (nodes g))"
    by (simp add: store_inv_def)
  have stored: "n \<in> snd ` set (nodes g) \<longleftrightarrow> GetNodeByID g (GetID n) = Inr n" for n
  proof
    assume "n \<in> snd ` set (nodes g)"
    then obtain k where "(k, n) \<in> set (nodes g)" by auto
    then have look: "map_of (nodes g) k = Some n"
      using dist by simp
    with assms have "GetID n = k" by (rule stored_node_id)
    with look show "GetNodeByID g (GetID n) = Inr n"
      by (simp add: GetNodeByID_def)
  next
    assume "GetNodeByID g (GetID n) = Inr n"
    then have "map_of (nodes g) (GetID n) = Some n"
      by (simp add: GetNodeByID_def split: option.splits)
    then have "(GetID n, n) \<in> set (nodes g)" by (rule map_of_SomeD)
    then show "n \<in> snd ` set (nodes g)" by force
  qed
  have mem: "n \<in> set (ListNodes g cs) \<longleftrightarrow>
      GetNodeByID g (GetID n) = Inr n \<and> (\<forall>clause \<in> set cs. clause n)" for n cs
    using stored [of n] by (simp add: ListNodes_def matches_iff)
  have "distinct (ListNodes g where)"
    unfolding ListNodes_def by (intro distinct_filter stored_nodes_distinct assms)
  moreover have "set (ListNodes g [FilterNodesByLabel labels, FilterNodesByName names])
      = set (ListNodes g [FilterNodesByLabel labels]) \<inter> set (ListNodes g [FilterNodesByName names])"
    by (auto simp: mem)
  ultimately show ?thesis
    by (simp add: mem)
qed

theorem ListNodes_all_predicates_witness:
  "store_inv test_graph
   \<and> ListNodes test_graph [FilterNodesByLabel [''puppy''], FilterNodesByName [''Azor'', ''Smaug'']] = [azor]
   \<and> ListNodes test_graph [FilterNodesByLabel [''puppy'']] = [bobita, azor]
   \<and> ListNodes test_graph [FilterNodesByName [''Azor'', ''Smaug'']] = [azor, smaug]
   \<and> ListNodes test_graph [] = [bobita, azor, smaug]
   \<and> set (ListNodes test_graph [FilterNodesByLabel [''puppy''], FilterNodesByName [''Azor'', ''Smaug'']])
       = set (ListNodes test_graph [FilterNodesByLabel [''puppy'']])
         \<inter> set (ListNodes test_graph [FilterNodesByName [''Azor'', ''Smaug'']])"
proof -
  have inv: "store_inv test_graph"
    by (rule reachable_store_inv [OF test_graph_reachable])
  have "ListNodes test_graph [FilterNodesByLabel [''puppy''], FilterNodesByName [''Azor'', ''Smaug'']] = [azor]"
    "ListNodes test_graph [FilterNodesByLabel [''puppy'']] = [bobita, azor]"
    "ListNodes test_graph [FilterNodesByName [''Azor'', ''Smaug'']] = [azor, smaug]"
    "ListNodes test_graph [] = [bobita, azor, smaug]"
    by (simp_all add: test_graph_eq ListNodes_def bobita_def azor_def smaug_def)
  with ListNodes_all_predicates [OF inv, of "[]" "[''puppy'']" "[''Azor'', ''Smaug'']"] inv
  show ?thesis by simp
qed

text \<open>
  Claim C8. In a store that satisfies the invariant, \<^verbatim>\<open>AddRelationship\<close> fails if and
  only if the identity of \<^verbatim>\<open>from\<close> or of \<^verbatim>\<open>to\<close> has no entry in the node collection
  (nothing else of the two values the caller passes is looked at). The failure is the
  error of \<^verbatim>\<open>GetNodeByID\<close>, which wraps \<^verbatim>\<open>ErrNotFound\<close>, wrapped again behind the
  identity of the endpoint that is missing (\<^verbatim>\<open>from\<close> is checked first), and the store is
  unchanged. On success the returned relationship carries the identity the generator
  handed out, the identities of the two endpoints and the label; it is returned by
  \<^verbatim>\<open>GetRelationshipByID\<close> and listed by \<^verbatim>\<open>ListRelationships\<close> afterwards; the nodes
  and the relationships of every other identity are as before; and when the identity is
  fresh the relationship collection is the old one with this entry added.
\<close>

theorem AddRelationship_checks_store:
  assumes "store_inv g"
  shows "(isl (fst (AddRelationship g newid from to label)) \<longleftrightarrow>
            map_of (nodes g) (GetID from) = None \<or> map_of (nodes g) (GetID to) = None)
    \<and> (\<forall>e. fst (AddRelationship g newid from to label) = Inl e \<longrightarrow>
          errors_Is e ErrNotFound
          \<and> e = (let missing = (if map_of (nodes g) (GetID from) = None then GetID from else GetID to);
                      notfound = Errorf (Error ErrNotFound @ ''; node with id '' @ quoted missing) ErrNotFound
                  in Errorf (''getNodeByID '' @ missing @ ''; '' @ Error notfound) notfound)
          \<and> snd (AddRelationship g newid from to label) = g)
    \<and> (\<forall>rel. fst (AddRelationship g newid from to label) = Inr rel \<longrightarrow>
          ID rel = newid \<and> From rel = GetID from \<and> To rel = GetID to \<and> Label rel = label
          \<and> GetRelationshipByID (snd (AddRelationship g newid from to label)) newid = Inr rel
          \<and> rel \<in> set (ListRelationships (snd (AddRelationship g newid from to label)) [])
          \<and> nodes (snd (AddRelationship g newid from to label)) = nodes g
          \<and> (\<forall>k. k \<noteq> newid \<longrightarrow>
                GetRelationshipByID (snd (AddRelationship g newid from to label)) k
                  = GetRelationshipByID g k)
          \<and> (newid \<notin> fst ` set (relationships g) \<longrightarrow>
                relationships (snd (AddRelationship g newid from to label))
                  = relationships g @ [(newid, rel)]))"
proof (cases "map_of (nodes g) (GetID from)")
  case None
  then show ?thesis
    by (simp add: AddRelationship_def GetNodeByID_def Let_def)
next
  case from_stored: (Some fromNode)
  show ?thesis
  proof (cases "map_of (nodes g) (GetID to)")
    case None
    with from_stored show ?thesis
      by (simp add: AddRelationship_def GetNodeByID_def Let_def)
  next
    case to_stored: (Some toNode)
    define rel where "rel = newRelationship newid fromNode toNode label"
    have add: "AddRelationship g newid from to label
        = (Inr rel, g\<lparr>relationships := AList.update newid rel (relationships g)\<rparr>)"
      by (simp add: AddRelationship_def GetNodeByID_def Let_def from_stored to_stored rel_def
          newRelationship_def)
    have ids: "GetID fromNode = GetID from" "GetID toNode = GetID to"
      using assms from_stored to_stored by (simp_all add: stored_node_id)
    have fields: "ID rel = newid" "From rel = GetID from" "To rel = GetID to" "Label rel = label"
      by (simp_all add: rel_def newRelationship_def ids)
    have get: "GetRelationshipByID (g\<lparr>relationships := AList.update newid rel (relationships g)\<rparr>) k
        = (if k = newid then Inr rel else GetRelationshipByID g k)" for k
      by (simp add: GetRelationshipByID_def update_conv')
    have "map_of (AList.update newid rel (relationships g)) newid = Some rel"
      by (simp add: update_conv')
    then have "(newid, rel) \<in> set (AList.update newid rel (relationships g))"
      by (rule map_of_SomeD)
    then have listed: "rel \<in> set (ListRelationships
        (g\<lparr>relationships := AList.update newid rel (relationships g)\<rparr>) [])"
      by (force simp: ListRelationships_def)
    show ?thesis
      using listed by (simp add: add from_stored to_stored fields get update_absent)
  qed
qed

theorem AddRelationship_checks_store_witness:
  "store_inv test_graph \<and> store_inv dangling_graph
   \<and> fst (AddRelationship test_graph ''r6'' stale_smaug bobita ''rivals'')
       = Inr (rel_of ''r6'' smaug ''rivals'' bobita)
   \<and> GetRelationshipByID (snd (AddRelationship test_graph ''r6'' stale_smaug bobita ''rivals'')) ''r6''
       = Inr (rel_of ''r6'' smaug ''rivals'' bobita)
   \<and> relationships (snd (AddRelationship test_graph ''r6'' stale_smaug bobita ''rivals''))
       = relationships test_graph @ [(''r6'', rel_of ''r6'' smaug ''rivals'' bobita)]
   \<and> map_of (nodes dangling_graph) (GetID smaug) = None
   \<and> isl (fst (AddRelationship dangling_graph ''r6'' bobita smaug ''rivals''))
   \<and> snd (AddRelationship dangling_graph ''r6'' bobita smaug ''rivals'') = dangling_graph"
proof -
  have inv: "store_inv test_graph"
    by (rule reachable_store_inv [OF test_graph_reachable])
  have inv': "store_inv dangling_graph"
    by (rule reachable_store_inv [OF dangling_graph_reachable])
  have ok: "fst (AddRelationship test_graph ''r6'' stale_smaug bobita ''rivals'')
      = Inr (rel_of ''r6'' smaug ''rivals'' bobita)"
    by (simp add: test_graph_eq AddRelationship_def GetNodeByID_def Let_def rel_of_def
        stale_smaug_def bobita_def)
  have new: "''r6'' \<notin> fst ` set (relationships test_graph)"
    by (simp add: test_graph_eq)
  have gone: "map_of (nodes dangling_graph) (GetID smaug) = None"
    by (simp add: dangling_graph_eq smaug_def)
  from AddRelationship_checks_store [OF inv, of "''r6''" stale_smaug bobita "''rivals''"] ok new
  have stored: "GetRelationshipByID (snd (AddRelationship test_graph ''r6'' stale_smaug bobita ''rivals'')) ''r6''
        = Inr (rel_of ''r6'' smaug ''rivals'' bobita)
      \<and> relationships (snd (AddRelationship test_graph ''r6'' stale_smaug bobita ''rivals''))
        = relationships test_graph @ [(''r6'', rel_of ''r6'' smaug ''rivals'' bobita)]"
    by blast
  from AddRelationship_checks_store [OF inv', of "''r6''" bobita smaug "''rivals''"] gone
  have failed: "isl (fst (AddRelationship dangling_graph ''r6'' bobita smaug ''rivals''))
      \<and> snd (AddRelationship dangling_graph ''r6'' bobita smaug ''rivals'') = dangling_graph"
    by (metis isl_def)
  from inv inv' ok stored gone failed show ?thesis by blast
qed

text \<open>
  Claim C9. For a stored identity, \<^verbatim>\<open>DeleteNode\<close> succeeds and removes the entry of that
  identity and nothing else: the node entries are the old ones without it, every other
  identity resolves as before, and the relationship collection is the same, the
  relationships from and to the deleted node included.
\<close>

theorem DeleteNode_removes_one_entry:
  assumes "store_inv g" and "GetNodeByID g nodeID = Inr node"
  shows "fst (DeleteNode g nodeID) = None
    \<and> nodes (snd (DeleteNode g nodeID)) = filter (\<lambda>(k, n). k \<noteq> nodeID) (nodes g)
    \<and> relationships (snd (DeleteNode g nodeID)) = relationships g
    \<and> map_of (nodes (snd (DeleteNode g nodeID))) nodeID = None
    \<and> (\<forall>k. k \<noteq> nodeID \<longrightarrow> GetNodeByID (snd (DeleteNode g nodeID)) k = GetNodeByID g k)"
proof -
  from assms(2) have look: "map_of (nodes g) nodeID = Some node"
    by (simp add: GetNodeByID_def split: option.splits)
  with assms(1) have ident: "GetID node = nodeID"
    by (rule stored_node_id)
  have del: "DeleteNode g nodeID = (None, g\<lparr>nodes := AList.delete nodeID (nodes g)\<rparr>)"
    by (simp add: DeleteNode_def look ident)
  have get: "GetNodeByID (g\<lparr>nodes := AList.delete nodeID (nodes g)\<rparr>) k = GetNodeByID g k"
    if "k \<noteq> nodeID" for k
    using that by (simp add: GetNodeByID_def delete_conv')
  show ?thesis
    by (simp add: del get delete_conv') (simp add: delete_as_filter)
qed

theorem DeleteNode_removes_one_entry_witness:
  "store_inv test_graph \<and> GetNodeByID test_graph ''n3'' = Inr smaug
   \<and> fst (DeleteNode test_graph ''n3'') = None
   \<and> nodes (snd (DeleteNode test_graph ''n3'')) = [(''n1'', bobita), (''n2'', azor)]
   \<and> relationships (snd (DeleteNode test_graph ''n3'')) = relationships test_graph
   \<and> (''r2'', rel_of ''r2'' bobita ''enemies'' smaug)
        \<in> set (relationships (snd (DeleteNode test_graph ''n3'')))
   \<and> To (rel_of ''r2'' bobita ''enemies'' smaug) = ''n3''
   \<and> GetNodeByID (snd (DeleteNode test_graph ''n3'')) ''n1'' = Inr bobita"
proof -
  have inv: "store_inv test_graph"
    by (rule reachable_store_inv [OF test_graph_reachable])
  have got: "GetNodeByID test_graph ''n3'' = Inr smaug"
    by (simp add: test_graph_eq GetNodeByID_def)
  have nodes: "filter (\<lambda>(k, n). k \<noteq> ''n3'') (nodes test_graph) = [(''n1'', bobita), (''n2'', azor)]"
    by (simp add: test_graph_eq)
  have r2: "(''r2'', rel_of ''r2'' bobita ''enemies'' smaug) \<in> set (relationships test_graph)"
    "To (rel_of ''r2'' bobita ''enemies'' smaug) = ''n3''"
    by (simp_all add: test_graph_eq rel_of_def newRelationship_def smaug_def)
  have other: "GetNodeByID test_graph ''n1'' = Inr bobita"
    by (simp add: test_graph_eq GetNodeByID_def)
  show ?thesis
    using DeleteNode_removes_one_entry [OF inv got] inv got r2
    by (simp add: nodes other)
qed

section \<open>The connection finder: what a call returns\<close>

text \<open>
  One unfolding of \<^verbatim>\<open>listConnections\<close>, read as membership: a chain is returned exactly
  when it starts with a stored relationship that leaves the current node for an
  unvisited destination and is either the two-link chain into \<^verbatim>\<open>to\<close> or that first link
  before a chain of the recursive call.
\<close>

lemma outgoing_relationships:
  "r \<in> set (ListRelationships g [FilterRelByFrom a]) \<longleftrightarrow>
     r \<in> snd ` set (relationships g) \<and> From r = a"
  by (auto simp: ListRelationships_def FilterRelByFrom_def)

lemma in_listConnections:
  "c \<in> set (listConnections g cur to V) \<longleftrightarrow>
     (\<exists>r. r \<in> snd ` set (relationships g) \<and> From r = GetID cur
        \<and> To r \<notin> insert (GetID cur) V
        \<and> (if To r = GetID to
             then c = ChainLink cur r (Some (ChainLink to zeroRelationship None))
             else \<exists>nxt c'. map_of (nodes g) (To r) = Some nxt
                    \<and> c' \<in> set (listConnections g nxt to (insert (To r) (insert (GetID cur) V)))
                    \<and> c = ChainLink cur r (Some c')))"
  (is "?lhs \<longleftrightarrow> (\<exists>r. ?stored r \<and> ?leaves r \<and> ?unvisited r \<and> ?chain r)")
proof -
  define body where "body = (\<lambda>rel.
      if To rel \<in> insert (GetID cur) V then []
      else if To rel = GetID to
        then [ChainLink cur rel (Some (ChainLink to zeroRelationship None))]
      else (case map_of (nodes g) (To rel) of
              None \<Rightarrow> []
            | Some nxt \<Rightarrow>
                map (\<lambda>cons. ChainLink cur rel (Some cons))
                  (listConnections g nxt to (insert (To rel) (insert (GetID cur) V)))))"
  have unfold: "listConnections g cur to V
      = concat (map body (ListRelationships g [FilterRelByFrom (GetID cur)]))"
    by (subst listConnections.simps) (simp add: Let_def body_def)
  have one: "c \<in> set (body r) \<longleftrightarrow> ?unvisited r \<and> ?chain r" for r
    unfolding body_def by (cases "map_of (nodes g) (To r)") auto
  have "?lhs \<longleftrightarrow> (\<exists>r \<in> set (ListRelationships g [FilterRelByFrom (GetID cur)]). c \<in> set (body r))"
    by (simp add: unfold)
  also have "\<dots> \<longleftrightarrow> (\<exists>r. r \<in> set (ListRelationships g [FilterRelByFrom (GetID cur)])
      \<and> c \<in> set (body r))"
    by (simp only: Bex_def)
  also have "\<dots> \<longleftrightarrow> (\<exists>r. ?stored r \<and> ?leaves r \<and> ?unvisited r \<and> ?chain r)"
    by (simp only: one outgoing_relationships conj_assoc)
  finally show ?thesis .
qed

lemma directed_path_last: "directed_path g a b p \<Longrightarrow> last (map To p) = b"
  by (induction p arbitrary: a) (auto split: if_splits)

lemma directed_path_stored: "directed_path g a b p \<Longrightarrow> set p \<subseteq> snd ` set (relationships g)"
  by (induction p arbitrary: a) (auto split: if_splits)

text \<open>
  Every chain of a call follows a directed path that avoids the visited identities,
  through stored nodes, from the current node to \<^verbatim>\<open>to\<close>.
\<close>

lemma chain_sound:
  assumes "store_inv g"
  shows "c \<in> set (listConnections g cur to V) \<Longrightarrow>
    directed_path g (GetID cur) (GetID to) (chain_rels c)
    \<and> distinct (map To (chain_rels c))
    \<and> set (map To (chain_rels c)) \<inter> insert (GetID cur) V = {}
    \<and> intermediates_stored g (chain_rels c)
    \<and> map GetID (chain_nodes c) = GetID cur # map To (chain_rels c)
    \<and> hd (chain_nodes c) = cur \<and> last (chain_nodes c) = to
    \<and> (\<forall>n \<in> set (butlast (tl (chain_nodes c))). map_of (nodes g) (GetID n) = Some n)
    \<and> chain_end c = ChainLink to zeroRelationship None"
proof (induction c arbitrary: cur V)
  case (ChainLink n r0 nx)
  from ChainLink.prems obtain r where
    stored: "r \<in> snd ` set (relationships g)" and leaves: "From r = GetID cur"
    and unvisited: "To r \<notin> insert (GetID cur) V"
    and shape: "if To r = GetID to
         then ChainLink n r0 nx = ChainLink cur r (Some (ChainLink to zeroRelationship None))
         else \<exists>nxt c'. map_of (nodes g) (To r) = Some nxt
                \<and> c' \<in> set (listConnections g nxt to (insert (To r) (insert (GetID cur) V)))
                \<and> ChainLink n r0 nx = ChainLink cur r (Some c')"
    unfolding in_listConnections [of "ChainLink n r0 nx"] by blast
  show ?case
  proof (cases "To r = GetID to")
    case True
    with shape have "ChainLink n r0 nx = ChainLink cur r (Some (ChainLink to zeroRelationship None))"
      by simp
    with stored leaves unvisited True show ?thesis
      by (simp add: intermediates_stored_def)
  next
    case False
    with shape obtain nxt c' where
      look: "map_of (nodes g) (To r) = Some nxt"
      and rec: "c' \<in> set (listConnections g nxt to (insert (To r) (insert (GetID cur) V)))"
      and eq: "n = cur" "r0 = r" "nx = Some c'"
      by auto
    from assms look have ident: "GetID nxt = To r"
      by (rule stored_node_id)
    have "c' \<in> set_option nx" by (simp add: eq)
    from ChainLink.IH [OF this rec]
    have ih: "directed_path g (To r) (GetID to) (chain_rels c')"
      "distinct (map To (chain_rels c'))"
      "set (map To (chain_rels c')) \<inter> insert (To r) (insert (GetID cur) V) = {}"
      "intermediates_stored g (chain_rels c')"
      "map GetID (chain_nodes c') = To r # map To (chain_rels c')"
      "hd (chain_nodes c') = nxt" "last (chain_nodes c') = to"
      "\<forall>n \<in> set (butlast (tl (chain_nodes c'))). map_of (nodes g) (GetID n) = Some n"
      "chain_end c' = ChainLink to zeroRelationship None"
      by (simp_all add: ident)
    have ne: "chain_rels c' \<noteq> []" "chain_nodes c' \<noteq> []"
      using ih(1,5) by auto
    have path: "directed_path g (GetID cur) (GetID to) (chain_rels (ChainLink n r0 nx))"
      using stored leaves ih(1) ne by (simp add: eq)
    have dist: "distinct (map To (chain_rels (ChainLink n r0 nx)))"
      using ih(2,3) by (auto simp: eq)
    have avoid: "set (map To (chain_rels (ChainLink n r0 nx))) \<inter> insert (GetID cur) V = {}"
      using ih(3) unvisited by (auto simp: eq)
    have inter: "intermediates_stored g (chain_rels (ChainLink n r0 nx))"
      using ih(4) ne look by (simp add: eq intermediates_stored_def)
    have ids: "map GetID (chain_nodes (ChainLink n r0 nx))
        = GetID cur # map To (chain_rels (ChainLink n r0 nx))"
      using ih(5) by (simp add: eq)
    have ends: "hd (chain_nodes (ChainLink n r0 nx)) = cur" "last (chain_nodes (ChainLink n r0 nx)) = to"
      using ih(7) ne by (simp_all add: eq)
    have "tl (chain_nodes c') \<noteq> []"
      using ih(5) ne by (cases "chain_nodes c'") auto
    then have "butlast (chain_nodes c') = nxt # butlast (tl (chain_nodes c'))"
      using ih(6) ne by (cases "chain_nodes c'") auto
    then have mids: "\<forall>m \<in> set (butlast (tl (chain_nodes (ChainLink n r0 nx)))).
        map_of (nodes g) (GetID m) = Some m"
      using ih(8) look ident by (simp add: eq)
    have "chain_end (ChainLink n r0 nx) = ChainLink to zeroRelationship None"
      using ih(9) by (simp add: eq)
    with path dist avoid inter ids ends mids show ?thesis
      by blast
  qed
qed

text \<open>Every such path has its chain, and no two chains of a call follow the same path.\<close>

lemma chain_complete:
  assumes "store_inv g"
  shows "directed_path g (GetID cur) (GetID to) p \<Longrightarrow> distinct (map To p) \<Longrightarrow>
    set (map To p) \<inter> insert (GetID cur) V = {} \<Longrightarrow> intermediates_stored g p \<Longrightarrow>
    \<exists>c \<in> set (listConnections g cur to V). chain_rels c = p"
proof (induction p arbitrary: cur V)
  case Nil
  then show ?case by simp
next
  case (Cons r rs)
  from Cons.prems(1) have stored: "r \<in> snd ` set (relationships g)" and leaves: "From r = GetID cur"
    by simp_all
  from Cons.prems(3) have unvisited: "To r \<notin> insert (GetID cur) V"
    by auto
  show ?case
  proof (cases "rs = []")
    case True
    with Cons.prems(1) have "To r = GetID to" by simp
    with stored leaves unvisited
    have "ChainLink cur r (Some (ChainLink to zeroRelationship None))
        \<in> set (listConnections g cur to V)"
      unfolding in_listConnections [of "ChainLink cur r (Some (ChainLink to zeroRelationship None))"]
      by auto
    with True show ?thesis by force
  next
    case False
    with Cons.prems(1) have rest: "directed_path g (To r) (GetID to) rs"
      by simp
    then have "last (map To rs) = GetID to"
      by (rule directed_path_last)
    with False have "GetID to \<in> set (map To rs)"
      by (metis last_in_set map_is_Nil_conv)
    with Cons.prems(2) have onward: "To r \<noteq> GetID to"
      by auto
    from Cons.prems(4) False obtain nxt where look: "map_of (nodes g) (To r) = Some nxt"
      by (auto simp: intermediates_stored_def)
    from assms look have ident: "GetID nxt = To r"
      by (rule stored_node_id)
    have "\<exists>c \<in> set (listConnections g nxt to (insert (To r) (insert (GetID cur) V))).
        chain_rels c = rs"
    proof (rule Cons.IH)
      show "directed_path g (GetID nxt) (GetID to) rs"
        using rest by (simp add: ident)
      show "distinct (map To rs)"
        using Cons.prems(2) by simp
      show "set (map To rs) \<inter> insert (GetID nxt) (insert (To r) (insert (GetID cur) V)) = {}"
        using Cons.prems(2,3) by (auto simp: ident)
      show "intermediates_stored g rs"
        using Cons.prems(4) False by (simp add: intermediates_stored_def)
    qed
    then obtain c' where
      rec: "c' \<in> set (listConnections g nxt to (insert (To r) (insert (GetID cur) V)))"
      and rels: "chain_rels c' = rs"
      by blast
    from stored leaves unvisited onward look rec
    have "ChainLink cur r (Some c') \<in> set (listConnections g cur to V)"
      unfolding in_listConnections [of "ChainLink cur r (Some c')"] by auto
    with rels show ?thesis by force
  qed
qed

lemma chain_rels_inj:
  "c1 \<in> set (listConnections g cur to V) \<Longrightarrow> c2 \<in> set (listConnections g cur to V) \<Longrightarrow>
   chain_rels c1 = chain_rels c2 \<Longrightarrow> c1 = c2"
proof (induction c1 arbitrary: c2 cur V)
  case (ChainLink n r0 nx)
  from ChainLink.prems(1) obtain r where
    shape1: "if To r = GetID to
         then ChainLink n r0 nx = ChainLink cur r (Some (ChainLink to zeroRelationship None))
         else \<exists>nxt c'. map_of (nodes g) (To r) = Some nxt
                \<and> c' \<in> set (listConnections g nxt to (insert (To r) (insert (GetID cur) V)))
                \<and> ChainLink n r0 nx = ChainLink cur r (Some c')"
    unfolding in_listConnections [of "ChainLink n r0 nx"] by blast
  from ChainLink.prems(2) obtain r' where
    shape2: "if To r' = GetID to
         then c2 = ChainLink cur r' (Some (ChainLink to zeroRelationship None))
         else \<exists>nxt c'. map_of (nodes g) (To r') = Some nxt
                \<and> c' \<in> set (listConnections g nxt to (insert (To r') (insert (GetID cur) V)))
                \<and> c2 = ChainLink cur r' (Some c')"
    unfolding in_listConnections [of c2] by blast
  have first1: "chain_rels (ChainLink n r0 nx) = r # tl (chain_rels (ChainLink n r0 nx))"
    using shape1 by (auto split: if_splits)
  have first2: "chain_rels c2 = r' # tl (chain_rels c2)"
    using shape2 by (auto split: if_splits)
  from first1 first2 ChainLink.prems(3) have same: "r' = r"
    by (metis list.inject)
  show ?case
  proof (cases "To r = GetID to")
    case True
    with shape1 shape2 same show ?thesis by simp
  next
    case False
    with shape1 obtain nxt c1' where
      look: "map_of (nodes g) (To r) = Some nxt"
      and rec1: "c1' \<in> set (listConnections g nxt to (insert (To r) (insert (GetID cur) V)))"
      and eq1: "n = cur" "r0 = r" "nx = Some c1'"
      by auto
    from False shape2 same look obtain c2' where
      rec2: "c2' \<in> set (listConnections g nxt to (insert (To r) (insert (GetID cur) V)))"
      and eq2: "c2 = ChainLink cur r (Some c2')"
      by auto
    have "c1' \<in> set_option nx" by (simp add: eq1)
    moreover have "chain_rels c1' = chain_rels c2'"
      using ChainLink.prems(3) by (simp add: eq1 eq2)
    ultimately have "c1' = c2'"
      using rec1 rec2 by (intro ChainLink.IH [of c1' nxt _ c2'])
    then show ?thesis by (simp add: eq1 eq2)
  qed
qed

lemma no_chain_to_visited:
  "GetID to \<in> insert (GetID cur) V \<Longrightarrow> c \<notin> set (listConnections g cur to V)"
proof (induction c arbitrary: cur V)
  case (ChainLink n r0 nx)
  show ?case
  proof
    assume "ChainLink n r0 nx \<in> set (listConnections g cur to V)"
    then obtain r where unvisited: "To r \<notin> insert (GetID cur) V"
      and shape: "if To r = GetID to
         then ChainLink n r0 nx = ChainLink cur r (Some (ChainLink to zeroRelationship None))
         else \<exists>nxt c'. map_of (nodes g) (To r) = Some nxt
                \<and> c' \<in> set (listConnections g nxt to (insert (To r) (insert (GetID cur) V)))
                \<and> ChainLink n r0 nx = ChainLink cur r (Some c')"
      unfolding in_listConnections [of "ChainLink n r0 nx"] by blast
    from unvisited ChainLink.prems have onward: "To r \<noteq> GetID to"
      by auto
    with shape obtain nxt c' where
      rec: "c' \<in> set (listConnections g nxt to (insert (To r) (insert (GetID cur) V)))"
      and eq: "nx = Some c'"
      by auto
    have "c' \<in> set_option nx" by (simp add: eq)
    moreover have "GetID to \<in> insert (GetID nxt) (insert (To r) (insert (GetID cur) V))"
      using ChainLink.prems by auto
    ultimately have "c' \<notin> set (listConnections g nxt to (insert (To r) (insert (GetID cur) V)))"
      by (rule ChainLink.IH)
    with rec show False by contradiction
  qed
qed

lemma listConnections_to_visited:
  "GetID to \<in> insert (GetID cur) V \<Longrightarrow> listConnections g cur to V = []"
  using no_chain_to_visited [of to cur V _ g] by (cases "listConnections g cur to V") auto

lemma distinct_concat_map:
  assumes "distinct xs"
    and "\<And>x. x \<in> set xs \<Longrightarrow> distinct (f x)"
    and "\<And>x y. x \<in> set xs \<Longrightarrow> y \<in> set (f x) \<Longrightarrow> h y = x"
  shows "distinct (concat (map f xs))"
  using assms
proof (induction xs)
  case Nil
  then show ?case by simp
next
  case (Cons x xs)
  have "set (f x) \<inter> set (concat (map f xs)) = {}"
  proof (rule ccontr)
    assume "set (f x) \<inter> set (concat (map f xs)) \<noteq> {}"
    then obtain y x' where "y \<in> set (f x)" "x' \<in> set xs" "y \<in> set (f x')"
      by auto
    with Cons.prems(3) have "x = x'" by (metis list.set_intros)
    with Cons.prems(1) \<open>x' \<in> set xs\<close> show False by simp
  qed
  moreover have "distinct (concat (map f xs))"
    using Cons by simp
  ultimately show ?case
    using Cons.prems(2) by simp
qed

lemma listConnections_distinct:
  "store_inv g \<Longrightarrow> distinct (listConnections g cur to V)"
proof (induction g cur to V rule: listConnections.induct)
  case (1 g cur to V)
  define body where "body = (\<lambda>rel.
      if To rel \<in> insert (GetID cur) V then []
      else if To rel = GetID to
        then [ChainLink cur rel (Some (ChainLink to zeroRelationship None))]
      else (case map_of (nodes g) (To rel) of
              None \<Rightarrow> []
            | Some nxt \<Rightarrow>
                map (\<lambda>cons. ChainLink cur rel (Some cons))
                  (listConnections g nxt to (insert (To rel) (insert (GetID cur) V)))))"
  have unfold: "listConnections g cur to V
      = concat (map body (ListRelationships g [FilterRelByFrom (GetID cur)]))"
    by (subst listConnections.simps) (simp add: Let_def body_def)
  show ?case
    unfolding unfold
  proof (rule distinct_concat_map [where h = cl_rel])
    show "distinct (ListRelationships g [FilterRelByFrom (GetID cur)])"
      unfolding ListRelationships_def by (intro distinct_filter stored_rels_distinct "1.prems")
    show "distinct (body r)" if r: "r \<in> set (ListRelationships g [FilterRelByFrom (GetID cur)])" for r
    proof (cases "To r \<in> insert (GetID cur) V \<or> To r = GetID to")
      case True
      then show ?thesis by (auto simp: body_def)
    next
      case False
      show ?thesis
      proof (cases "map_of (nodes g) (To r)")
        case None
        with False show ?thesis by (simp add: body_def)
      next
        case (Some nxt)
        with False r "1.prems"
        have "distinct (listConnections g nxt to (insert (To r) (insert (GetID cur) V)))"
          by (intro "1.IH" [of "insert (GetID cur) V" r nxt]) auto
        then have "distinct (map (\<lambda>cons. ChainLink cur r (Some cons))
            (listConnections g nxt to (insert (To r) (insert (GetID cur) V))))"
          by (simp add: distinct_map inj_on_def)
        with False Some show ?thesis by (simp add: body_def)
      qed
    qed
    show "cl_rel c = r" if "c \<in> set (body r)" for r c
      using that unfolding body_def by (auto split: if_splits option.splits)
  qed
qed

text \<open>
  The chains returned depend on the entries of the two collections only, not on the
  order in which a \<^verbatim>\<open>range\<close> visits them.
\<close>

lemma connections_of_entries:
  assumes "snd ` set (relationships g) \<subseteq> snd ` set (relationships g')"
    and "map_of (nodes g) = map_of (nodes g')"
  shows "c \<in> set (listConnections g cur to V) \<Longrightarrow> c \<in> set (listConnections g' cur to V)"
proof (induction c arbitrary: cur V)
  case (ChainLink n r0 nx)
  from ChainLink.prems obtain r where
    stored: "r \<in> snd ` set (relationships g)" and leaves: "From r = GetID cur"
    and unvisited: "To r \<notin> insert (GetID cur) V"
    and shape: "if To r = GetID to
         then ChainLink n r0 nx = ChainLink cur r (Some (ChainLink to zeroRelationship None))
         else \<exists>nxt c'. map_of (nodes g) (To r) = Some nxt
                \<and> c' \<in> set (listConnections g nxt to (insert (To r) (insert (GetID cur) V)))
                \<and> ChainLink n r0 nx = ChainLink cur r (Some c')"
    unfolding in_listConnections [of "ChainLink n r0 nx" g] by blast
  from stored assms(1) have stored': "r \<in> snd ` set (relationships g')"
    by blast
  show ?case
  proof (cases "To r = GetID to")
    case True
    with shape stored' leaves unvisited show ?thesis
      unfolding in_listConnections [of "ChainLink n r0 nx" g'] by auto
  next
    case False
    with shape obtain nxt c' where
      look: "map_of (nodes g) (To r) = Some nxt"
      and rec: "c' \<in> set (listConnections g nxt to (insert (To r) (insert (GetID cur) V)))"
      and eq: "ChainLink n r0 nx = ChainLink cur r (Some c')"
      by auto
    from eq have "c' \<in> set_option nx" by simp
    from ChainLink.IH [OF this rec]
    have "c' \<in> set (listConnections g' nxt to (insert (To r) (insert (GetID cur) V)))" .
    with False stored' leaves unvisited look eq assms(2) show ?thesis
      unfolding in_listConnections [of "ChainLink n r0 nx" g'] by auto
  qed
qed

lemma connections_order_irrelevant:
  assumes "set (relationships g) = set (relationships g')"
    and "map_of (nodes g) = map_of (nodes g')"
  shows "set (ListConnections g from to) = set (ListConnections g' from to)"
  unfolding ListConnections_def
  using connections_of_entries [of g g' _ "from" to "{}"]
    connections_of_entries [of g' g _ "from" to "{}"] assms
  by auto

subsection \<open>The example stores, searched\<close>

lemma test_graph_connections:
  "ListConnections test_graph bobita smaug =
     [ChainLink bobita (rel_of ''r1'' bobita ''friends'' azor)
        (Some (ChainLink azor (rel_of ''r3'' azor ''enemies'' smaug)
           (Some (ChainLink smaug zeroRelationship None)))),
      ChainLink bobita (rel_of ''r2'' bobita ''enemies'' smaug)
        (Some (ChainLink smaug zeroRelationship None))]"
  by (simp add: ListConnections_def listConnections.simps test_graph_eq ListRelationships_def
      FilterRelByFrom_def rel_of_def newRelationship_def bobita_def azor_def smaug_def Let_def)

lemma test_graph_parallel:
  "ListConnections test_graph azor bobita =
     [ChainLink azor (rel_of ''r4'' azor ''friends'' bobita)
        (Some (ChainLink bobita zeroRelationship None)),
      ChainLink azor (rel_of ''r5'' azor ''friends'' bobita)
        (Some (ChainLink bobita zeroRelationship None))]"
  by (simp add: ListConnections_def listConnections.simps test_graph_eq ListRelationships_def
      FilterRelByFrom_def rel_of_def newRelationship_def bobita_def azor_def smaug_def Let_def)

lemma dangling_graph_connections:
  "ListConnections dangling_graph bobita stale_smaug =
     [ChainLink bobita (rel_of ''r1'' bobita ''friends'' azor)
        (Some (ChainLink azor (rel_of ''r3'' azor ''enemies'' smaug)
           (Some (ChainLink stale_smaug zeroRelationship None)))),
      ChainLink bobita (rel_of ''r2'' bobita ''enemies'' smaug)
        (Some (ChainLink stale_smaug zeroRelationship None))]"
  by (simp add: ListConnections_def listConnections.simps dangling_graph_eq test_graph_eq
      ListRelationships_def FilterRelByFrom_def rel_of_def newRelationship_def bobita_def
      azor_def smaug_def stale_smaug_def Let_def)

lemma connections_are_simple_paths:
  assumes "store_inv g"
  shows "chain_rels ` set (ListConnections g from to) = {p. simple_path g (GetID from) (GetID to) p}"
proof (intro set_eqI iffI)
  fix p assume "p \<in> chain_rels ` set (ListConnections g from to)"
  then obtain c where "c \<in> set (listConnections g from to {})" and "p = chain_rels c"
    by (auto simp: ListConnections_def)
  with chain_sound [OF assms, of c "from" to "{}"]
  show "p \<in> {p. simple_path g (GetID from) (GetID to) p}"
    by (simp add: simple_path_def)
next
  fix p assume "p \<in> {p. simple_path g (GetID from) (GetID to) p}"
  then have "directed_path g (GetID from) (GetID to) p" "distinct (map To p)"
    "set (map To p) \<inter> insert (GetID from) {} = {}" "intermediates_stored g p"
    by (auto simp: simple_path_def)
  from chain_complete [OF assms this]
  show "p \<in> chain_rels ` set (ListConnections g from to)"
    by (auto simp: ListConnections_def)
qed

text \<open>
  Claim C1. In a store that satisfies the invariant, for \<^verbatim>\<open>from\<close> and \<^verbatim>\<open>to\<close> of distinct
  identities, \<^verbatim>\<open>ListConnections\<close> returns every chain once, and reading the
  relationships off a chain is a one-to-one correspondence between the chains returned
  and the simple directed paths from \<^verbatim>\<open>from\<close> to \<^verbatim>\<open>to\<close> whose intermediate identities
  resolve to stored nodes. The nodes of a chain carry, in order, the identity of \<^verbatim>\<open>from\<close>
  and then the destination of each relationship, with no identity twice; the first node
  is \<^verbatim>\<open>from\<close>, the last is \<^verbatim>\<open>to\<close>, the ones between are the stored nodes; the last link
  holds the zero relationship and no successor. Two different stored relationships from
  \<^verbatim>\<open>from\<close> to \<^verbatim>\<open>to\<close> give two different chains, both returned.
\<close>

theorem ListConnections_simple_paths:
  assumes "store_inv g" and "GetID from \<noteq> GetID to"
  shows "distinct (ListConnections g from to)
    \<and> chain_rels ` set (ListConnections g from to)
        = {p. simple_path g (GetID from) (GetID to) p}
    \<and> inj_on chain_rels (set (ListConnections g from to))
    \<and> (\<forall>c \<in> set (ListConnections g from to).
          map GetID (chain_nodes c) = GetID from # map To (chain_rels c)
          \<and> distinct (map GetID (chain_nodes c))
          \<and> hd (chain_nodes c) = from \<and> last (chain_nodes c) = to
          \<and> (\<forall>n \<in> set (butlast (tl (chain_nodes c))). GetNodeByID g (GetID n) = Inr n)
          \<and> chain_end c = ChainLink to zeroRelationship None)
    \<and> (\<forall>r1 r2. r1 \<in> snd ` set (relationships g) \<and> r2 \<in> snd ` set (relationships g)
          \<and> From r1 = GetID from \<and> To r1 = GetID to
          \<and> From r2 = GetID from \<and> To r2 = GetID to \<and> r1 \<noteq> r2 \<longrightarrow>
          ChainLink from r1 (Some (ChainLink to zeroRelationship None))
            \<in> set (ListConnections g from to)
          \<and> ChainLink from r2 (Some (ChainLink to zeroRelationship None))
            \<in> set (ListConnections g from to)
          \<and> ChainLink from r1 (Some (ChainLink to zeroRelationship None))
            \<noteq> ChainLink from r2 (Some (ChainLink to zeroRelationship None)))"
proof -
  have d: "distinct (ListConnections g from to)"
    unfolding ListConnections_def by (rule listConnections_distinct [OF assms(1)])
  have i: "inj_on chain_rels (set (ListConnections g from to))"
    unfolding ListConnections_def by (rule inj_onI) (rule chain_rels_inj)
  have each: "map GetID (chain_nodes c) = GetID from # map To (chain_rels c)
      \<and> distinct (map GetID (chain_nodes c))
      \<and> hd (chain_nodes c) = from \<and> last (chain_nodes c) = to
      \<and> (\<forall>n \<in> set (butlast (tl (chain_nodes c))). GetNodeByID g (GetID n) = Inr n)
      \<and> chain_end c = ChainLink to zeroRelationship None"
    if "c \<in> set (ListConnections g from to)" for c
  proof -
    from that have "c \<in> set (listConnections g from to {})"
      by (simp add: ListConnections_def)
    from chain_sound [OF assms(1) this] show ?thesis
      by (auto simp: GetNodeByID_def)
  qed
  have direct: "ChainLink from r (Some (ChainLink to zeroRelationship None))
      \<in> set (ListConnections g from to)"
    if "r \<in> snd ` set (relationships g)" "From r = GetID from" "To r = GetID to" for r
    unfolding ListConnections_def
      in_listConnections [of "ChainLink from r (Some (ChainLink to zeroRelationship None))"]
    using that assms(2) by auto
  have differ: "ChainLink from r1 (Some (ChainLink to zeroRelationship None))
      \<noteq> ChainLink from r2 (Some (ChainLink to zeroRelationship None))"
    if "r1 \<noteq> r2" for r1 r2
    using that by simp
  from d connections_are_simple_paths [OF assms(1), of "from" to] i each direct differ
  show ?thesis
    by blast
qed

theorem ListConnections_simple_paths_witness:
  "store_inv test_graph \<and> GetID bobita \<noteq> GetID smaug \<and> GetID azor \<noteq> GetID bobita
   \<and> ListConnections test_graph bobita smaug =
       [ChainLink bobita (rel_of ''r1'' bobita ''friends'' azor)
          (Some (ChainLink azor (rel_of ''r3'' azor ''enemies'' smaug)
             (Some (ChainLink smaug zeroRelationship None)))),
        ChainLink bobita (rel_of ''r2'' bobita ''enemies'' smaug)
          (Some (ChainLink smaug zeroRelationship None))]
   \<and> {p. simple_path test_graph (GetID bobita) (GetID smaug) p}
       = {[rel_of ''r1'' bobita ''friends'' azor, rel_of ''r3'' azor ''enemies'' smaug],
          [rel_of ''r2'' bobita ''enemies'' smaug]}
   \<and> ListConnections test_graph azor bobita =
       [ChainLink azor (rel_of ''r4'' azor ''friends'' bobita)
          (Some (ChainLink bobita zeroRelationship None)),
        ChainLink azor (rel_of ''r5'' azor ''friends'' bobita)
          (Some (ChainLink bobita zeroRelationship None))]
   \<and> {p. simple_path test_graph (GetID azor) (GetID bobita) p}
       = {[rel_of ''r4'' azor ''friends'' bobita], [rel_of ''r5'' azor ''friends'' bobita]}"
proof -
  have inv: "store_inv test_graph"
    by (rule reachable_store_inv [OF test_graph_reachable])
  have ne: "GetID bobita \<noteq> GetID smaug" "GetID azor \<noteq> GetID bobita"
    by (simp_all add: bobita_def smaug_def azor_def)
  from ListConnections_simple_paths [OF inv ne(1)]
  have "{p. simple_path test_graph (GetID bobita) (GetID smaug) p}
      = chain_rels ` set (ListConnections test_graph bobita smaug)"
    by simp
  then have one: "{p. simple_path test_graph (GetID bobita) (GetID smaug) p}
      = {[rel_of ''r1'' bobita ''friends'' azor, rel_of ''r3'' azor ''enemies'' smaug],
         [rel_of ''r2'' bobita ''enemies'' smaug]}"
    by (simp add: test_graph_connections)
  from ListConnections_simple_paths [OF inv ne(2)]
  have "{p. simple_path test_graph (GetID azor) (GetID bobita) p}
      = chain_rels ` set (ListConnections test_graph azor bobita)"
    by simp
  then have two: "{p. simple_path test_graph (GetID azor) (GetID bobita) p}
      = {[rel_of ''r4'' azor ''friends'' bobita], [rel_of ''r5'' azor ''friends'' bobita]}"
    by (simp add: test_graph_parallel)
  from inv ne one two show ?thesis
    by (simp add: test_graph_connections test_graph_parallel)
qed

text \<open>
  Claim C2. \<^verbatim>\<open>listConnections\<close> terminates on every store, with or without cycles, and
  from any visited set: every argument is in the domain of the recursion. Here
  \<open>listConnections_rel x y\<close> is the relation, generated from the definition of the
  function, that holds when the call on \<open>y\<close> makes the recursive call on \<open>x\<close>, and
  \<open>listConnections_dom\<close> is its accessible part: the arguments from which every
  sequence of nested calls is finite. Each recursive
  call keeps the store and the destination and receives a strictly larger visited set;
  what it adds is the identity of the current node and of a stored node, so the number
  of stored identities not yet visited strictly falls. \<^verbatim>\<open>ListConnections\<close> is the call
  with nothing visited. In a store that satisfies the invariant the simple paths between
  two identities are finitely many, and they are what is returned.
\<close>

theorem listConnections_terminates:
  "listConnections_dom (g, from, to, visited)
   \<and> (\<forall>g' from' to' visited'.
        listConnections_rel (g', from', to', visited') (g, from, to, visited) \<longrightarrow>
          g' = g \<and> to' = to \<and> visited \<subset> visited'
          \<and> visited' - visited \<subseteq> insert (GetID from) (fst ` set (nodes g))
          \<and> card (fst ` set (nodes g) - visited') < card (fst ` set (nodes g) - visited))
   \<and> ListConnections g from to = listConnections g from to {}
   \<and> (store_inv g \<longrightarrow> finite {p. simple_path g (GetID from) (GetID to) p}
        \<and> chain_rels ` set (ListConnections g from to)
            = {p. simple_path g (GetID from) (GetID to) p})"
proof (intro conjI allI impI)
  have "All listConnections_dom"
  proof (rule "listConnections.termination")
    show "wf (measure (\<lambda>(g, from, to, visited0). card (fst ` set (nodes g) - visited0)))"
      by simp
  next
    fix g :: Graph and "from" to :: Node and visited0 visited :: "string set"
      and rel :: Relationship and nxt :: Node
    assume call: "visited = insert (GetID from) visited0" "To rel \<notin> visited"
      and "map_of (nodes g) (To rel) = Some nxt"
    then have "To rel \<in> fst ` set (nodes g)"
      by (metis map_of_SomeD fst_conv image_eqI)
    with call have "fst ` set (nodes g) - insert (To rel) visited \<subset> fst ` set (nodes g) - visited0"
      by auto
    then have "card (fst ` set (nodes g) - insert (To rel) visited)
        < card (fst ` set (nodes g) - visited0)"
      by (intro psubset_card_mono) simp_all
    then show "((g, nxt, to, insert (To rel) visited), (g, from, to, visited0))
        \<in> measure (\<lambda>(g, from, to, visited0). card (fst ` set (nodes g) - visited0))"
      by simp
  qed
  then show "listConnections_dom (g, from, to, visited)" ..
next
  fix g' from' to' visited'
  assume "listConnections_rel (g', from', to', visited') (g, from, to, visited)"
  then obtain rel :: Relationship where call: "g' = g" "to' = to"
    "visited' = insert (To rel) (insert (GetID from) visited)"
    "To rel \<notin> insert (GetID from) visited" "map_of (nodes g) (To rel) = Some from'"
    by (cases rule: listConnections_rel.cases) auto
  from call(5) have stored: "To rel \<in> fst ` set (nodes g)"
    by (metis map_of_SomeD fst_conv image_eqI)
  show "g' = g" "to' = to" by (fact call)+
  show "visited \<subset> visited'"
    using call(3,4) by auto
  show "visited' - visited \<subseteq> insert (GetID from) (fst ` set (nodes g))"
    using call(3) stored by auto
  have "fst ` set (nodes g) - visited' \<subset> fst ` set (nodes g) - visited"
    using call(3,4) stored by auto
  then show "card (fst ` set (nodes g) - visited') < card (fst ` set (nodes g) - visited)"
    by (intro psubset_card_mono) simp_all
next
  show "ListConnections g from to = listConnections g from to {}"
    by (simp add: ListConnections_def)
next
  assume inv: "store_inv g"
  then show paths: "chain_rels ` set (ListConnections g from to)
      = {p. simple_path g (GetID from) (GetID to) p}"
    by (rule connections_are_simple_paths)
  have "finite (chain_rels ` set (ListConnections g from to))"
    by simp
  then show "finite {p. simple_path g (GetID from) (GetID to) p}"
    by (simp only: paths)
qed

theorem listConnections_terminates_witness:
  "listConnections_dom (test_graph, bobita, bobita, {})
   \<and> listConnections_rel (test_graph, azor, bobita, insert ''n2'' (insert ''n1'' {}))
        (test_graph, bobita, bobita, {})
   \<and> {} \<subset> insert ''n2'' (insert ''n1'' ({} :: string set))
   \<and> card (fst ` set (nodes test_graph) - insert ''n2'' (insert ''n1'' {}))
        < card (fst ` set (nodes test_graph) - {})
   \<and> store_inv test_graph
   \<and> directed_path test_graph (GetID bobita) (GetID bobita)
        [rel_of ''r1'' bobita ''friends'' azor, rel_of ''r4'' azor ''friends'' bobita]
   \<and> finite {p. simple_path test_graph (GetID bobita) (GetID smaug) p}
   \<and> ListConnections test_graph bobita bobita = listConnections test_graph bobita bobita {}"
proof -
  have inv: "store_inv test_graph"
    by (rule reachable_store_inv [OF test_graph_reachable])
  have cycle: "directed_path test_graph (GetID bobita) (GetID bobita)
      [rel_of ''r1'' bobita ''friends'' azor, rel_of ''r4'' azor ''friends'' bobita]"
    by (simp add: test_graph_eq rel_of_def newRelationship_def bobita_def azor_def)
  have "listConnections_rel
      (test_graph, azor, bobita,
       insert (To (rel_of ''r1'' bobita ''friends'' azor)) (insert (GetID bobita) {}))
      (test_graph, bobita, bobita, {})"
    by (rule listConnections_rel.intros [OF refl])
       (simp_all add: outgoing_relationships test_graph_eq rel_of_def newRelationship_def
          bobita_def azor_def)
  then have call: "listConnections_rel (test_graph, azor, bobita, insert ''n2'' (insert ''n1'' {}))
      (test_graph, bobita, bobita, {})"
    by (simp add: rel_of_def newRelationship_def bobita_def azor_def)
  from listConnections_terminates [of test_graph bobita bobita "{}"] call
  have grows: "{} \<subset> insert ''n2'' (insert ''n1'' ({} :: string set))
      \<and> card (fst ` set (nodes test_graph) - insert ''n2'' (insert ''n1'' {}))
        < card (fst ` set (nodes test_graph) - {})"
    by blast
  from listConnections_terminates [of test_graph bobita bobita "{}"]
  have total: "listConnections_dom (test_graph, bobita, bobita, {})
      \<and> ListConnections test_graph bobita bobita = listConnections test_graph bobita bobita {}"
    by blast
  from listConnections_terminates [of test_graph bobita smaug "{}"] inv
  have fin: "finite {p. simple_path test_graph (GetID bobita) (GetID smaug) p}"
    by blast
  from inv cycle call grows total fin show ?thesis
    by blast
qed

text \<open>
  Claim C3. \<^verbatim>\<open>ListConnections\<close> returns the empty list when, in a store that satisfies the
  invariant, there is no directed path from \<^verbatim>\<open>from\<close> to \<^verbatim>\<open>to\<close>; and, in any store, when
  \<^verbatim>\<open>from\<close> and \<^verbatim>\<open>to\<close> have the same identity, whatever cycles or self-loops pass through
  it.
\<close>

theorem ListConnections_empty:
  "(store_inv g \<and> (\<forall>p. \<not> directed_path g (GetID from) (GetID to) p)
      \<longrightarrow> ListConnections g from to = [])
   \<and> (GetID from = GetID to \<longrightarrow> ListConnections g from to = [])"
proof (intro conjI impI)
  assume a: "store_inv g \<and> (\<forall>p. \<not> directed_path g (GetID from) (GetID to) p)"
  have "c \<notin> set (ListConnections g from to)" for c
  proof
    assume "c \<in> set (ListConnections g from to)"
    then have "c \<in> set (listConnections g from to {})"
      by (simp add: ListConnections_def)
    with a chain_sound [of g c "from" to "{}"] show False
      by blast
  qed
  then show "ListConnections g from to = []"
    by (cases "ListConnections g from to") auto
next
  assume "GetID from = GetID to"
  then show "ListConnections g from to = []"
    by (simp add: ListConnections_def listConnections_to_visited)
qed

theorem ListConnections_empty_witness:
  "store_inv test_graph
   \<and> (\<forall>p. \<not> directed_path test_graph (GetID smaug) (GetID bobita) p)
   \<and> ListConnections test_graph smaug bobita = []
   \<and> GetID bobita = GetID bobita
   \<and> directed_path test_graph (GetID bobita) (GetID bobita)
        [rel_of ''r1'' bobita ''friends'' azor, rel_of ''r4'' azor ''friends'' bobita]
   \<and> ListConnections test_graph bobita bobita = []
   \<and> ListConnections (snd (AddRelationship test_graph ''r6'' bobita bobita ''self'')) bobita bobita = []"
proof -
  have inv: "store_inv test_graph"
    by (rule reachable_store_inv [OF test_graph_reachable])
  have none: "\<not> directed_path test_graph (GetID smaug) (GetID bobita) p" for p
    by (cases p) (auto simp: test_graph_eq rel_of_def newRelationship_def bobita_def azor_def smaug_def)
  have cycle: "directed_path test_graph (GetID bobita) (GetID bobita)
      [rel_of ''r1'' bobita ''friends'' azor, rel_of ''r4'' azor ''friends'' bobita]"
    by (simp add: test_graph_eq rel_of_def newRelationship_def bobita_def azor_def)
  from ListConnections_empty [of test_graph smaug bobita] inv none
  have "ListConnections test_graph smaug bobita = []"
    by blast
  moreover from ListConnections_empty [of test_graph bobita bobita]
  have "ListConnections test_graph bobita bobita = []"
    by blast
  moreover from ListConnections_empty
    [of "snd (AddRelationship test_graph ''r6'' bobita bobita ''self'')" bobita bobita]
  have "ListConnections (snd (AddRelationship test_graph ''r6'' bobita bobita ''self'')) bobita bobita = []"
    by blast
  ultimately show ?thesis
    using inv none cycle by blast
qed

text \<open>
  Claim C10. A stored relationship from \<^verbatim>\<open>from\<close> whose destination is the identity of
  \<^verbatim>\<open>to\<close>, a different one, yields the two-link chain into \<^verbatim>\<open>to\<close> in every store:
  nothing asks whether that identity resolves to a stored node. And there is a store, built by the
  operations, in which \<^verbatim>\<open>to\<close> is not stored any more while a relationship into it
  remains, and \<^verbatim>\<open>ListConnections\<close> returns chains, each ending in the value of \<^verbatim>\<open>to\<close>
  the caller passed, which is no stored node.
\<close>

theorem listConnections_destination_unchecked:
  "(r \<in> snd ` set (relationships g) \<and> From r = GetID from \<and> To r = GetID to
      \<and> GetID to \<noteq> GetID from \<longrightarrow>
      ChainLink from r (Some (ChainLink to zeroRelationship None))
        \<in> set (ListConnections g from to))
   \<and> (\<exists>g from to. reachable g
        \<and> isl (GetNodeByID g (GetID to)) \<and> to \<notin> snd ` set (nodes g)
        \<and> (\<exists>r \<in> snd ` set (relationships g). To r = GetID to)
        \<and> ListConnections g from to \<noteq> []
        \<and> (\<forall>c \<in> set (ListConnections g from to).
              chain_end c = ChainLink to zeroRelationship None))"
proof (intro conjI impI)
  assume "r \<in> snd ` set (relationships g) \<and> From r = GetID from \<and> To r = GetID to
      \<and> GetID to \<noteq> GetID from"
  then show "ChainLink from r (Some (ChainLink to zeroRelationship None))
      \<in> set (ListConnections g from to)"
    unfolding ListConnections_def
      in_listConnections [of "ChainLink from r (Some (ChainLink to zeroRelationship None))"]
    by auto
next
  have "isl (GetNodeByID dangling_graph (GetID stale_smaug))"
    by (simp add: dangling_graph_eq GetNodeByID_def stale_smaug_def)
  moreover have "stale_smaug \<notin> snd ` set (nodes dangling_graph)"
    by (simp add: dangling_graph_eq stale_smaug_def bobita_def azor_def)
  moreover have "\<exists>r \<in> snd ` set (relationships dangling_graph). To r = GetID stale_smaug"
    by (simp add: dangling_graph_eq test_graph_eq rel_of_def newRelationship_def smaug_def
        stale_smaug_def)
  moreover have "ListConnections dangling_graph bobita stale_smaug \<noteq> []"
    by (simp add: dangling_graph_connections)
  moreover have "\<forall>c \<in> set (ListConnections dangling_graph bobita stale_smaug).
      chain_end c = ChainLink stale_smaug zeroRelationship None"
    by (simp add: dangling_graph_connections)
  ultimately show "\<exists>g from to. reachable g
      \<and> isl (GetNodeByID g (GetID to)) \<and> to \<notin> snd ` set (nodes g)
      \<and> (\<exists>r \<in> snd ` set (relationships g). To r = GetID to)
      \<and> ListConnections g from to \<noteq> []
      \<and> (\<forall>c \<in> set (ListConnections g from to).
            chain_end c = ChainLink to zeroRelationship None)"
    using dangling_graph_reachable by blast
qed

theorem listConnections_destination_unchecked_witness:
  "rel_of ''r2'' bobita ''enemies'' smaug \<in> snd ` set (relationships dangling_graph)
   \<and> From (rel_of ''r2'' bobita ''enemies'' smaug) = GetID bobita
   \<and> To (rel_of ''r2'' bobita ''enemies'' smaug) = GetID stale_smaug
   \<and> GetID stale_smaug \<noteq> GetID bobita
   \<and> map_of (nodes dangling_graph) (GetID stale_smaug) = None
   \<and> ChainLink bobita (rel_of ''r2'' bobita ''enemies'' smaug)
        (Some (ChainLink stale_smaug zeroRelationship None))
      \<in> set (ListConnections dangling_graph bobita stale_smaug)"
proof -
  have hyp: "rel_of ''r2'' bobita ''enemies'' smaug \<in> snd ` set (relationships dangling_graph)
      \<and> From (rel_of ''r2'' bobita ''enemies'' smaug) = GetID bobita
      \<and> To (rel_of ''r2'' bobita ''enemies'' smaug) = GetID stale_smaug
      \<and> GetID stale_smaug \<noteq> GetID bobita"
    by (simp add: dangling_graph_eq test_graph_eq rel_of_def newRelationship_def smaug_def
        stale_smaug_def bobita_def)
  have gone: "map_of (nodes dangling_graph) (GetID stale_smaug) = None"
    by (simp add: dangling_graph_eq stale_smaug_def)
  from listConnections_destination_unchecked
    [of "rel_of ''r2'' bobita ''enemies'' smaug" dangling_graph bobita stale_smaug] hyp gone
  show ?thesis by blast
qed

end
